theory Spec2Isabelle
  imports Main
begin

section \<open>SHA-256 as called through \<^verbatim>\<open>hashlib.sha256\<close>\<close>

text \<open>
  \<^verbatim>\<open>calculate_hash\<close> feeds one UTF-8 byte string to \<^verbatim>\<open>hashlib.sha256\<close> and returns
  \<^verbatim>\<open>hexdigest()\<close>. The digest is modelled as FIPS 180-4 defines it. A 32-bit word is an
  \<open>int\<close> in \<open>0 ..< 2 ^ 32\<close>; every addition is reduced modulo \<open>2 ^ 32\<close> explicitly.
\<close>

type_synonym u32 = int

definition add32 :: "u32 \<Rightarrow> u32 \<Rightarrow> u32" where
  "add32 x y = (x + y) mod 4294967296"

definition rotr32 :: "nat \<Rightarrow> u32 \<Rightarrow> u32" where
  "rotr32 n x = x div 2 ^ n + (x mod 2 ^ n) * 2 ^ (32 - n)"

definition shr32 :: "nat \<Rightarrow> u32 \<Rightarrow> u32" where
  "shr32 n x = x div 2 ^ n"

definition not32 :: "u32 \<Rightarrow> u32" where
  "not32 x = 4294967295 - x"

definition ch :: "u32 \<Rightarrow> u32 \<Rightarrow> u32 \<Rightarrow> u32" where
  "ch e f g = xor (and e f) (and (not32 e) g)"

definition maj :: "u32 \<Rightarrow> u32 \<Rightarrow> u32 \<Rightarrow> u32" where
  "maj a b c = xor (xor (and a b) (and a c)) (and b c)"

definition bsig0 :: "u32 \<Rightarrow> u32" where
  "bsig0 x = xor (xor (rotr32 2 x) (rotr32 13 x)) (rotr32 22 x)"

definition bsig1 :: "u32 \<Rightarrow> u32" where
  "bsig1 x = xor (xor (rotr32 6 x) (rotr32 11 x)) (rotr32 25 x)"

definition ssig0 :: "u32 \<Rightarrow> u32" where
  "ssig0 x = xor (xor (rotr32 7 x) (rotr32 18 x)) (shr32 3 x)"

definition ssig1 :: "u32 \<Rightarrow> u32" where
  "ssig1 x = xor (xor (rotr32 17 x) (rotr32 19 x)) (shr32 10 x)"

text \<open>The round constants and the initial state, in decimal.\<close>

definition sha256_k :: "u32 list" where
  "sha256_k =
    [1116352408, 1899447441, 3049323471, 3921009573, 961987163, 1508970993,
     2453635748, 2870763221, 3624381080, 310598401, 607225278, 1426881987,
     1925078388, 2162078206, 2614888103, 3248222580, 3835390401, 4022224774,
     264347078, 604807628, 770255983, 1249150122, 1555081692, 1996064986,
     2554220882, 2821834349, 2952996808, 3210313671, 3336571891, 3584528711,
     113926993, 338241895, 666307205, 773529912, 1294757372, 1396182291,
     1695183700, 1986661051, 2177026350, 2456956037, 2730485921, 2820302411,
     3259730800, 3345764771, 3516065817, 3600352804, 4094571909, 275423344,
     430227734, 506948616, 659060556, 883997877, 958139571, 1322822218,
     1537002063, 1747873779, 1955562222, 2024104815, 2227730452, 2361852424,
     2428436474, 2756734187, 3204031479, 3329325298]"

type_synonym sha_state = "u32 \<times> u32 \<times> u32 \<times> u32 \<times> u32 \<times> u32 \<times> u32 \<times> u32"

definition sha256_init :: sha_state where
  "sha256_init =
     (1779033703, 3144134277, 1013904242, 2773480762,
      1359893119, 2600822924, 528734635, 1541459225)"

text \<open>
  The message schedule, newest word first: one word is added for each of the round
  constants 16 to 63.
\<close>

fun extend :: "u32 list \<Rightarrow> u32 list \<Rightarrow> u32 list" where
  "extend [] ws = ws"
| "extend (k # ks) ws =
     extend ks
       (add32 (add32 (add32 (ssig1 (ws ! 1)) (ws ! 6)) (ssig0 (ws ! 14))) (ws ! 15) # ws)"

definition schedule :: "u32 list \<Rightarrow> u32 list" where
  "schedule blk = rev (extend (drop 16 sha256_k) (rev blk))"

fun rotate_in :: "u32 \<Rightarrow> u32 \<Rightarrow> sha_state \<Rightarrow> sha_state" where
  "rotate_in t1 t2 (a, b, c, d, e, f, g, h) = (add32 t1 t2, a, b, c, add32 d t1, e, f, g)"

fun sha_round :: "sha_state \<Rightarrow> u32 \<times> u32 \<Rightarrow> sha_state" where
  "sha_round (a, b, c, d, e, f, g, h) (k, w) =
     rotate_in (add32 (add32 (add32 (add32 h (bsig1 e)) (ch e f g)) k) w)
               (add32 (bsig0 a) (maj a b c))
               (a, b, c, d, e, f, g, h)"

fun add_state :: "sha_state \<Rightarrow> sha_state \<Rightarrow> sha_state" where
  "add_state (a, b, c, d, e, f, g, h) (a', b', c', d', e', f', g', h') =
     (add32 a a', add32 b b', add32 c c', add32 d d',
      add32 e e', add32 f f', add32 g g', add32 h h')"

definition compress :: "sha_state \<Rightarrow> u32 list \<Rightarrow> sha_state" where
  "compress s blk = add_state s (foldl sha_round s (zip sha256_k (schedule blk)))"

fun be_words :: "int list \<Rightarrow> u32 list" where
  "be_words (a # b # c # d # bs) = (((a * 256 + b) * 256 + c) * 256 + d) # be_words bs"
| "be_words _ = []"

function sha_blocks :: "sha_state \<Rightarrow> u32 list \<Rightarrow> sha_state" where
  "sha_blocks s ws =
     (if length ws < 16 then s else sha_blocks (compress s (take 16 ws)) (drop 16 ws))"
  by pat_completeness auto
termination
  by (relation "measure (\<lambda>(s, ws). length ws)") auto

declare sha_blocks.simps [simp del]

definition be64 :: "nat \<Rightarrow> int list" where
  "be64 n = map (\<lambda>i. (int n div 256 ^ i) mod 256) [7, 6, 5, 4, 3, 2, 1, 0]"

definition pad :: "int list \<Rightarrow> int list" where
  "pad m = m @ [128] @ replicate ((119 - length m mod 64) mod 64) 0 @ be64 (8 * length m)"

definition hex_digit :: "int \<Rightarrow> char" where
  "hex_digit n = ''0123456789abcdef'' ! nat n"

definition hex32 :: "u32 \<Rightarrow> string" where
  "hex32 w = map (\<lambda>i. hex_digit ((w div 16 ^ i) mod 16)) [7, 6, 5, 4, 3, 2, 1, 0]"

fun hex_state :: "sha_state \<Rightarrow> string" where
  "hex_state (a, b, c, d, e, f, g, h) =
     hex32 a @ hex32 b @ hex32 c @ hex32 d @ hex32 e @ hex32 f @ hex32 g @ hex32 h"

definition sha256_hexdigest :: "int list \<Rightarrow> string" where
  "sha256_hexdigest m = hex_state (sha_blocks sha256_init (be_words (pad m)))"

section \<open>Python's \<^verbatim>\<open>str\<close>, \<^verbatim>\<open>repr\<close> and UTF-8 encoding\<close>

text \<open>
  A Python string is modelled as a \<open>string\<close> whose characters are the code points
  U+0000 to U+00FF. \<^verbatim>\<open>str\<close> of a list prints the \<^verbatim>\<open>repr\<close> of its elements, and
  \<^verbatim>\<open>repr\<close> of a \<^verbatim>\<open>__dict__\<close> prints keys and values in insertion order.
\<close>

definition dec_digit :: "int \<Rightarrow> char" where
  "dec_digit n = ''0123456789'' ! nat n"

function str_digits :: "int \<Rightarrow> string" where
  "str_digits n = (if n < 10 then [dec_digit n] else str_digits (n div 10) @ [dec_digit (n mod 10)])"
  by pat_completeness auto
termination
  by (relation "measure nat") auto

declare str_digits.simps [simp del]

definition str_int :: "int \<Rightarrow> string" where
  "str_int i = (if i < 0 then CHR ''-'' # str_digits (- i) else str_digits i)"

definition backslash :: char where
  "backslash = CHR 0x5C"

definition squote :: char where
  "squote = CHR 0x27"

definition dquote :: char where
  "dquote = CHR 0x22"

definition hex_escape :: "char \<Rightarrow> string" where
  "hex_escape c =
     [backslash, CHR ''x'', hex_digit (of_char c div 16), hex_digit (of_char c mod 16)]"

definition repr_char :: "char \<Rightarrow> char \<Rightarrow> string" where
  "repr_char q c =
     (if c = q \<or> c = backslash then [backslash, c]
      else if c = CHR 0x09 then [backslash, CHR ''t'']
      else if c = CHR 0x0A then [backslash, CHR ''n'']
      else if c = CHR 0x0D then [backslash, CHR ''r'']
      else if (of_char c :: nat) < 32 \<or> (of_char c :: nat) = 127 then hex_escape c
      else if (of_char c :: nat) < 128 then [c]
      else if (of_char c :: nat) \<le> 160 \<or> (of_char c :: nat) = 173 then hex_escape c
      else [c])"

definition repr_str :: "string \<Rightarrow> string" where
  "repr_str s =
     (let q = (if squote \<in> set s \<and> dquote \<notin> set s then dquote else squote)
      in q # concat (map (repr_char q) s) @ [q])"

type_synonym address = "string option"

definition repr_address :: "address \<Rightarrow> string" where
  "repr_address a = (case a of None \<Rightarrow> ''None'' | Some s \<Rightarrow> repr_str s)"

fun join_comma :: "string list \<Rightarrow> string" where
  "join_comma [] = []"
| "join_comma [x] = x"
| "join_comma (x # y # ys) = x @ '', '' @ join_comma (y # ys)"

definition utf8_encode :: "string \<Rightarrow> int list" where
  "utf8_encode s =
     concat (map (\<lambda>c. if (of_char c :: int) < 128 then [of_char c]
                       else [192 + of_char c div 64, 128 + of_char c mod 64]) s)"

section \<open>Transactions and blocks\<close>

text \<open>
  A block is first modelled by the values of its fields, as \<^verbatim>\<open>calculate_hash\<close> reads them.
  \<^verbatim>\<open>sender\<close> and \<^verbatim>\<open>receiver\<close> are strings or \<^verbatim>\<open>None\<close>. The identity of the
  \<^verbatim>\<open>Transaction\<close> objects, which blocks can share, is added further down.
\<close>

record transaction =
  sender :: address
  receiver :: address
  amount :: int

record block =
  previous_hash :: string
  transactions :: "transaction list"
  timestamp :: int
  nonce :: int
  hash :: string

definition repr_dict :: "transaction \<Rightarrow> string" where
  "repr_dict t =
     ''{'' @ [squote] @ ''sender'' @ [squote] @ '': '' @ repr_address (sender t) @
     '', '' @ [squote] @ ''receiver'' @ [squote] @ '': '' @ repr_address (receiver t) @
     '', '' @ [squote] @ ''amount'' @ [squote] @ '': '' @ str_int (amount t) @ ''}''"

definition str_list :: "transaction list \<Rightarrow> string" where
  "str_list ts = ''['' @ join_comma (map repr_dict ts) @ '']''"

definition block_data :: "block \<Rightarrow> string" where
  "block_data b =
     previous_hash b @ str_int (timestamp b) @ str_int (nonce b) @ str_list (transactions b)"

definition calculate_hash :: "block \<Rightarrow> string" where
  "calculate_hash b = sha256_hexdigest (utf8_encode (block_data b))"

text \<open>\<^verbatim>\<open>Block.__init__\<close>: the four fields are stored, then the hash is computed from them.\<close>

definition Block :: "string \<Rightarrow> transaction list \<Rightarrow> int \<Rightarrow> int \<Rightarrow> block" where
  "Block p ts t n =
     (let self = \<lparr>previous_hash = p, transactions = ts, timestamp = t, nonce = n, hash = []\<rparr>
      in self\<lparr>hash := calculate_hash self\<rparr>)"

text \<open>
  Python's slice \<^verbatim>\<open>s[:n]\<close> (a negative \<open>n\<close> counts from the end) and \<^verbatim>\<open>'0' * n\<close>
  (empty for a negative \<open>n\<close>).
\<close>

definition slice_to :: "int \<Rightarrow> 'a list \<Rightarrow> 'a list" where
  "slice_to n xs = (if 0 \<le> n then take (nat n) xs else take (length xs - nat (- n)) xs)"

definition target :: "int \<Rightarrow> string" where
  "target d = replicate (nat d) CHR ''0''"

text \<open>
  \<^verbatim>\<open>mine_block\<close>: the loop has no bound, so the model is a partial function and
  \<open>None\<close> stands for a search that never returns. The timing and the printed line are
  left out.
\<close>

partial_function (option) mine_block :: "int \<Rightarrow> block \<Rightarrow> block option" where
  "mine_block d b =
     (if slice_to d (hash b) \<noteq> target d
      then mine_block d
             (b\<lparr>nonce := nonce b + 1,
                hash := calculate_hash (b\<lparr>nonce := nonce b + 1\<rparr>)\<rparr>)
      else Some b)"

declare mine_block.simps [code]

section \<open>The blockchain\<close>

record blockchain =
  chain :: "block list"
  pending_transactions :: "transaction list"
  difficulty :: int

datatype error = IndexError

definition create_genesis_block :: block where
  "create_genesis_block = Block ''0'' [] 0 0"

definition Blockchain :: "int \<Rightarrow> blockchain" where
  "Blockchain d =
     \<lparr>chain = [create_genesis_block], pending_transactions = [], difficulty = d\<rparr>"

definition add_block :: "block \<Rightarrow> blockchain \<Rightarrow> blockchain" where
  "add_block b bc = bc\<lparr>chain := chain bc @ [b]\<rparr>"

definition add_transaction :: "transaction \<Rightarrow> blockchain \<Rightarrow> blockchain" where
  "add_transaction t bc = bc\<lparr>pending_transactions := pending_transactions bc @ [t]\<rparr>"

text \<open>\<^verbatim>\<open>self.chain[-1]\<close> raises \<^verbatim>\<open>IndexError\<close> on an empty list.\<close>

definition get_last_block :: "blockchain \<Rightarrow> error + block" where
  "get_last_block bc = (if chain bc = [] then Inl IndexError else Inr (last (chain bc)))"

text \<open>
  \<^verbatim>\<open>mine_pending_transactions\<close>: \<open>now\<close> is the value of \<^verbatim>\<open>int(time.time())\<close> read by
  the call. The result is \<open>None\<close> when the search never returns, \<open>Some (Inl e)\<close> when
  the call raises, \<open>Some (Inr bc')\<close> when it returns. The printed line is left out.
\<close>

definition mine_pending_transactions ::
  "address \<Rightarrow> int \<Rightarrow> blockchain \<Rightarrow> (error + blockchain) option" where
  "mine_pending_transactions miner_address now bc =
     (case get_last_block bc of
        Inl e \<Rightarrow> Some (Inl e)
      | Inr lb \<Rightarrow>
          (case mine_block (difficulty bc) (Block (hash lb) (pending_transactions bc) now 0) of
             None \<Rightarrow> None
           | Some blk \<Rightarrow>
               Some (Inr ((add_block blk bc)
                 \<lparr>pending_transactions :=
                    [\<lparr>sender = None, receiver = miner_address, amount = 1\<rparr>]\<rparr>))))"

text \<open>\<^verbatim>\<open>get_balance\<close>: the body of the inner loop, the inner loop, and the outer loop.\<close>

definition balance_step :: "address \<Rightarrow> transaction \<Rightarrow> int \<Rightarrow> int" where
  "balance_step a t bal =
     (let bal1 = (if sender t = a then bal - amount t else bal)
      in if receiver t = a then bal1 + amount t else bal1)"

definition get_balance :: "address \<Rightarrow> blockchain \<Rightarrow> int" where
  "get_balance a bc =
     fold (\<lambda>blk bal. fold (balance_step a) (transactions blk) bal) (chain bc) 0"

text \<open>
  \<^verbatim>\<open>is_chain_valid\<close>: the loop over \<^verbatim>\<open>range(1, len(self.chain))\<close>. The verdict records
  which line was printed before \<^verbatim>\<open>return False\<close> and the value of \<open>i\<close> at that moment.
\<close>

datatype verdict = Valid | Hash_mismatch nat | Link_mismatch nat

function check_from :: "nat \<Rightarrow> block list \<Rightarrow> verdict" where
  "check_from i c =
     (if i < length c then
        (if hash (c ! i) \<noteq> calculate_hash (c ! i) then Hash_mismatch i
         else if hash (c ! (i - 1)) \<noteq> previous_hash (c ! i) then Link_mismatch i
         else check_from (i + 1) c)
      else Valid)"
  by pat_completeness auto
termination
  by (relation "measure (\<lambda>(i, c). length c - i)") auto

declare check_from.simps [simp del]

definition chain_verdict :: "blockchain \<Rightarrow> verdict" where
  "chain_verdict bc = check_from 1 (chain bc)"

definition is_chain_valid :: "blockchain \<Rightarrow> bool" where
  "is_chain_valid bc = (chain_verdict bc = Valid)"

text \<open>Sequences of calls on a ledger.\<close>

datatype call =
  AddTransaction transaction
| AddBlock block
| MinePending address int

fun apply_call :: "call \<Rightarrow> blockchain \<Rightarrow> (error + blockchain) option" where
  "apply_call (AddTransaction t) bc = Some (Inr (add_transaction t bc))"
| "apply_call (AddBlock b) bc = Some (Inr (add_block b bc))"
| "apply_call (MinePending a now) bc = mine_pending_transactions a now bc"

fun run :: "call list \<Rightarrow> blockchain \<Rightarrow> (error + blockchain) option" where
  "run [] bc = Some (Inr bc)"
| "run (x # xs) bc =
     (case apply_call x bc of
        None \<Rightarrow> None
      | Some (Inl e) \<Rightarrow> Some (Inl e)
      | Some (Inr bc') \<Rightarrow> run xs bc')"

fun is_mine :: "call \<Rightarrow> bool" where
  "is_mine (MinePending a now) = True"
| "is_mine _ = False"

fun is_add_block :: "call \<Rightarrow> bool" where
  "is_add_block (AddBlock b) = True"
| "is_add_block _ = False"

section \<open>Assignments from outside and the examples\<close>

text \<open>
  The attributes of an appended block stay assignable. This is the assignment
  \<^verbatim>\<open>bc.chain[k].previous_hash = v\<close>; it does not recompute the block's stored hash.
\<close>

definition replace_previous_hash :: "nat \<Rightarrow> string \<Rightarrow> blockchain \<Rightarrow> blockchain" where
  "replace_previous_hash k v bc =
     bc\<lparr>chain := (chain bc)[k := (chain bc ! k)\<lparr>previous_hash := v\<rparr>]\<rparr>"

text \<open>
  The balance as the specification words it: every transaction of the chain, in order,
  counts \<open>+ amount\<close> when its receiver is the address and \<open>- amount\<close> when its sender
  is.
\<close>

definition signed_amount :: "address \<Rightarrow> transaction \<Rightarrow> int" where
  "signed_amount a t =
     (if receiver t = a then amount t else 0) - (if sender t = a then amount t else 0)"

definition all_transactions :: "blockchain \<Rightarrow> transaction list" where
  "all_transactions bc = concat (map transactions (chain bc))"

text \<open>The two tests one iteration of \<^verbatim>\<open>is_chain_valid\<close> makes at index \<open>j\<close>.\<close>

definition block_ok :: "block list \<Rightarrow> nat \<Rightarrow> bool" where
  "block_ok c j \<longleftrightarrow>
     hash (c ! j) = calculate_hash (c ! j) \<and> hash (c ! (j - 1)) = previous_hash (c ! j)"

section \<open>Transaction objects shared between blocks\<close>

text \<open>
  \<^verbatim>\<open>add_transaction\<close> appends the object it is given, \<^verbatim>\<open>Block.__init__\<close> keeps the list
  it is given, and \<^verbatim>\<open>mine_pending_transactions\<close> hands it the pool's list. So a
  \<^verbatim>\<open>Transaction\<close> object that was appended twice is held by two blocks, and an
  assignment to its \<^verbatim>\<open>amount\<close> shows in both. For such assignments the ledger is
  modelled with a store: the store lists the \<^verbatim>\<open>Transaction\<close> objects made so far with
  their current fields, a reference is the position of an object in the store, and a
  block object holds the references in its list. \<open>read_ledger\<close> is the ledger of
  values that \<^verbatim>\<open>is_chain_valid\<close> and \<^verbatim>\<open>get_balance\<close> read through the references.
\<close>

type_synonym ref = nat

record block_object =
  its_previous_hash :: string
  its_transactions :: "ref list"
  its_timestamp :: int
  its_nonce :: int
  its_hash :: string

record ledger_object =
  store :: "transaction list"
  block_objects :: "block_object list"
  pending_refs :: "ref list"
  its_difficulty :: int

definition read_block :: "transaction list \<Rightarrow> block_object \<Rightarrow> block" where
  "read_block s bo =
     \<lparr>previous_hash = its_previous_hash bo, transactions = map ((!) s) (its_transactions bo),
      timestamp = its_timestamp bo, nonce = its_nonce bo, hash = its_hash bo\<rparr>"

definition read_ledger :: "ledger_object \<Rightarrow> blockchain" where
  "read_ledger st =
     \<lparr>chain = map (read_block (store st)) (block_objects st),
      pending_transactions = map ((!) (store st)) (pending_refs st),
      difficulty = its_difficulty st\<rparr>"

text \<open>A block object made of a block's fields and the list of references it keeps.\<close>

definition object_of :: "block \<Rightarrow> ref list \<Rightarrow> block_object" where
  "object_of b rs =
     \<lparr>its_previous_hash = previous_hash b, its_transactions = rs,
      its_timestamp = timestamp b, its_nonce = nonce b, its_hash = hash b\<rparr>"


definition Transaction :: "address \<Rightarrow> address \<Rightarrow> int \<Rightarrow> ledger_object \<Rightarrow> ref \<times> ledger_object" where
  "Transaction s r a st =
     (length (store st),
      st\<lparr>store := store st @ [\<lparr>sender = s, receiver = r, amount = a\<rparr>]\<rparr>)"

definition add_transaction_ref :: "ref \<Rightarrow> ledger_object \<Rightarrow> ledger_object" where
  "add_transaction_ref r st = st\<lparr>pending_refs := pending_refs st @ [r]\<rparr>"

definition mine_pending_refs ::
  "address \<Rightarrow> int \<Rightarrow> ledger_object \<Rightarrow> (error + ledger_object) option" where
  "mine_pending_refs miner_address now st =
     (if block_objects st = [] then Some (Inl IndexError)
      else
        (case mine_block (its_difficulty st)
                (Block (its_hash (last (block_objects st)))
                   (map ((!) (store st)) (pending_refs st)) now 0) of
           None \<Rightarrow> None
         | Some blk \<Rightarrow>
             (case Transaction None miner_address 1
                     (st\<lparr>block_objects :=
                          block_objects st @ [object_of blk (pending_refs st)]\<rparr>) of
                (reward, st') \<Rightarrow> Some (Inr (st'\<lparr>pending_refs := [reward]\<rparr>)))))"










text \<open>
  The run of the repository's \<^verbatim>\<open>__main__\<close> block, with the clock reading 1700000098 at
  the first \<^verbatim>\<open>mine_pending_transactions\<close> and 1700000141 at the second, and the ledgers
  it passes through.
\<close>

definition demo_calls :: "call list" where
  "demo_calls =
     [AddTransaction \<lparr>sender = Some ''A'', receiver = Some ''B'', amount = 100\<rparr>,
      MinePending (Some ''miner1'') 1700000098,
      AddTransaction \<lparr>sender = Some ''C'', receiver = Some ''D'', amount = 10\<rparr>,
      MinePending (Some ''miner2'') 1700000141]"

definition genesis_digest :: string where
  "genesis_digest = ''b5389816d2fa57f3e189ef78b10fe58a5159ec244b7134e310331e2ca01e494a''"

definition demo_block1 :: block where
  "demo_block1 =
     \<lparr>previous_hash = genesis_digest,
      transactions = [\<lparr>sender = Some ''A'', receiver = Some ''B'', amount = 100\<rparr>],
      timestamp = 1700000098, nonce = 1,
      hash = ''009df826312c8ff0bcbfa02f8eb732bb958f0a4cd32a3cd9efa9d3ae6671ff73''\<rparr>"

definition demo_block2 :: block where
  "demo_block2 =
     \<lparr>previous_hash = ''009df826312c8ff0bcbfa02f8eb732bb958f0a4cd32a3cd9efa9d3ae6671ff73'',
      transactions = [\<lparr>sender = None, receiver = Some ''miner1'', amount = 1\<rparr>,
                      \<lparr>sender = Some ''C'', receiver = Some ''D'', amount = 10\<rparr>],
      timestamp = 1700000141, nonce = 2,
      hash = ''00f119cffb5a9b325465c08bd4bf646ef6a587af484b6e5886dcf038af30ac99''\<rparr>"

definition demo_genesis :: block where
  "demo_genesis =
     \<lparr>previous_hash = ''0'', transactions = [], timestamp = 0, nonce = 0,
      hash = genesis_digest\<rparr>"

definition demo_mined1 :: blockchain where
  "demo_mined1 =
     \<lparr>chain = [demo_genesis, demo_block1],
      pending_transactions = [\<lparr>sender = None, receiver = Some ''miner1'', amount = 1\<rparr>],
      difficulty = 2\<rparr>"

definition demo_ledger :: blockchain where
  "demo_ledger =
     \<lparr>chain = [demo_genesis, demo_block1, demo_block2],
      pending_transactions = [\<lparr>sender = None, receiver = Some ''miner2'', amount = 1\<rparr>],
      difficulty = 2\<rparr>"

text \<open>A genesis block with every field but the stored hash overwritten.\<close>

definition overwritten_genesis :: block where
  "overwritten_genesis =
     \<lparr>previous_hash = ''ff'',
      transactions = [\<lparr>sender = None, receiver = Some ''X'', amount = 1000000\<rparr>],
      timestamp = 42, nonce = 7, hash = genesis_digest\<rparr>"

text \<open>A value that is the hash of no block of the demonstration chain.\<close>

definition zero_digest :: string where
  "zero_digest = ''0000000000000000000000000000000000000000000000000000000000000000''"

text \<open>A block mined at difficulty 1 from predecessor hash \<open>''0''\<close> and clock reading 2.\<close>

definition small_sealed :: block where
  "small_sealed =
     \<lparr>previous_hash = ''0'', transactions = [], timestamp = 2, nonce = 2,
      hash = ''022f8ab515e047a7464aa114dd465e89e655a088cd3fb697d96ddeff6a5df3b1''\<rparr>"

section \<open>Blocks: construction and sealing\<close>

lemma calculate_hash_hash_update [simp]: "calculate_hash (b\<lparr>hash := h\<rparr>) = calculate_hash b"
  by (simp add: calculate_hash_def block_data_def)

lemma hash_Block: "hash (Block p ts t n) = calculate_hash (Block p ts t n)"
  by (simp add: Block_def Let_def calculate_hash_def block_data_def)

lemma Block_fields [simp]:
  "previous_hash (Block p ts t n) = p"
  "transactions (Block p ts t n) = ts"
  "timestamp (Block p ts t n) = t"
  "nonce (Block p ts t n) = n"
  by (simp_all add: Block_def Let_def)

lemma mine_block_zero: "mine_block 0 b = Some b"
  by (subst mine_block.simps) (simp add: slice_to_def target_def)

lemma mine_block_sealed:
  assumes "mine_block d b = Some b'"
  shows "slice_to d (hash b') = target d"
  using assms
proof (induction rule: mine_block.raw_induct[rotated 1, consumes 1, case_names step])
  case (step mine d b b')
  then show ?case by (auto split: if_splits)
qed

lemma mine_block_keeps:
  assumes "mine_block d b = Some b'"
  shows "previous_hash b' = previous_hash b \<and> transactions b' = transactions b \<and>
         timestamp b' = timestamp b \<and> nonce b \<le> nonce b'"
  using assms
proof (induction rule: mine_block.raw_induct[rotated 1, consumes 1, case_names step])
  case (step mine d b b')
  show ?case
  proof (cases "slice_to d (hash b) \<noteq> target d")
    case True
    with step.hyps have "mine d (b\<lparr>nonce := nonce b + 1,
                hash := calculate_hash (b\<lparr>nonce := nonce b + 1\<rparr>)\<rparr>) = Some b'"
      by simp
    from step.IH[OF this] show ?thesis by simp
  next
    case False
    with step.hyps show ?thesis by simp
  qed
qed

lemma mine_block_invariant:
  assumes "mine_block d b = Some b'"
  shows "hash b = calculate_hash b \<longrightarrow> hash b' = calculate_hash b'"
  using assms
proof (induction rule: mine_block.raw_induct[rotated 1, consumes 1, case_names step])
  case (step mine d b b')
  show ?case
  proof (cases "slice_to d (hash b) \<noteq> target d")
    case True
    with step.hyps have "mine d (b\<lparr>nonce := nonce b + 1,
                hash := calculate_hash (b\<lparr>nonce := nonce b + 1\<rparr>)\<rparr>) = Some b'"
      by simp
    from step.IH[OF this] show ?thesis
      by (simp add: calculate_hash_def block_data_def)
  next
    case False
    with step.hyps show ?thesis by simp
  qed
qed

lemma mine_block_fresh_hash:
  assumes "mine_block d b = Some b'" and "b' \<noteq> b"
  shows "hash b' = calculate_hash b'"
proof -
  let ?b1 = "b\<lparr>nonce := nonce b + 1, hash := calculate_hash (b\<lparr>nonce := nonce b + 1\<rparr>)\<rparr>"
  from assms have "mine_block d ?b1 = Some b'"
    by (subst (asm) mine_block.simps) (simp split: if_splits)
  moreover have "hash ?b1 = calculate_hash ?b1"
    by (simp add: calculate_hash_def block_data_def)
  ultimately show ?thesis
    using mine_block_invariant by blast
qed

lemma target_prefix:
  assumes "slice_to d h = target d"
  shows "take (nat d) h = replicate (nat d) CHR ''0''"
  using assms by (cases "0 \<le> d") (simp_all add: slice_to_def target_def)

text \<open>
  C3. A block's hash equals \<open>calculate_hash\<close> of the block right after construction.
  Whenever \<open>mine_block\<close> with difficulty \<open>d\<close> returns on a constructed block, the first
  \<open>d\<close> characters of the hash are all \<open>0\<close> and the hash again equals \<open>calculate_hash\<close> of
  the block. The prefix property holds for every block the search returns on; the hash
  is up to date whenever it was before the call or the loop ran at least once.
\<close>

theorem seal_hash_consistent:
  "hash (Block p ts t n) = calculate_hash (Block p ts t n) \<and>
   (mine_block d (Block p ts t n) = Some b1 \<longrightarrow>
      take (nat d) (hash b1) = replicate (nat d) CHR ''0'' \<and> hash b1 = calculate_hash b1) \<and>
   (mine_block d b = Some b' \<longrightarrow>
      take (nat d) (hash b') = replicate (nat d) CHR ''0'' \<and>
      (hash b = calculate_hash b \<or> nonce b' \<noteq> nonce b \<longrightarrow> hash b' = calculate_hash b'))"
proof (intro conjI impI)
  show "hash (Block p ts t n) = calculate_hash (Block p ts t n)"
    by (rule hash_Block)
next
  assume m: "mine_block d (Block p ts t n) = Some b1"
  show "take (nat d) (hash b1) = replicate (nat d) CHR ''0''"
    using mine_block_sealed[OF m] by (rule target_prefix)
  show "hash b1 = calculate_hash b1"
    using mine_block_invariant[OF m] hash_Block by simp
next
  assume m: "mine_block d b = Some b'"
  show "take (nat d) (hash b') = replicate (nat d) CHR ''0''"
    using mine_block_sealed[OF m] by (rule target_prefix)
next
  assume m: "mine_block d b = Some b'"
    and h: "hash b = calculate_hash b \<or> nonce b' \<noteq> nonce b"
  from h show "hash b' = calculate_hash b'"
  proof
    assume "hash b = calculate_hash b"
    with mine_block_invariant[OF m] show ?thesis by simp
  next
    assume "nonce b' \<noteq> nonce b"
    then have "b' \<noteq> b" by auto
    with m show ?thesis by (rule mine_block_fresh_hash)
  qed
qed

text \<open>
  C7. With difficulty 0 the loop condition fails at the first check for every block:
  \<open>mine_block\<close> returns the block as it was, nonce and hash unchanged, without
  recomputing the hash.
\<close>

theorem seal_difficulty_zero:
  "mine_block 0 b = Some b \<and>
   nonce (the (mine_block 0 b)) = nonce b \<and> hash (the (mine_block 0 b)) = hash b"
  by (simp add: mine_block_zero)

section \<open>Chain validation\<close>

lemma check_from_step:
  "i < length c \<Longrightarrow>
   check_from i c =
     (if hash (c ! i) \<noteq> calculate_hash (c ! i) then Hash_mismatch i
      else if hash (c ! (i - 1)) \<noteq> previous_hash (c ! i) then Link_mismatch i
      else check_from (i + 1) c)"
  by (subst check_from.simps) simp

lemma check_from_end: "length c \<le> i \<Longrightarrow> check_from i c = Valid"
  by (subst check_from.simps) simp

lemma check_from_skip:
  assumes "i \<le> k" and "k \<le> length c" and "\<forall>j. i \<le> j \<and> j < k \<longrightarrow> block_ok c j"
  shows "check_from i c = check_from k c"
  using assms
proof (induction i c rule: check_from.induct)
  case (1 i c)
  show ?case
  proof (cases "i = k")
    case True
    then show ?thesis by simp
  next
    case False
    with "1.prems" have lt: "i < k" "i < length c" by auto
    then have ok: "block_ok c i"
      using "1.prems"(3) by auto
    then have "check_from i c = check_from (i + 1) c"
      using lt by (simp add: check_from_step[of i] block_ok_def)
    also have "\<dots> = check_from k c"
      using "1.IH" lt ok "1.prems" by (auto simp: block_ok_def)
    finally show ?thesis .
  qed
qed

lemma check_from_Valid_iff:
  "check_from i c = Valid \<longleftrightarrow> (\<forall>j. i \<le> j \<and> j < length c \<longrightarrow> block_ok c j)"
proof (induction i c rule: check_from.induct)
  case (1 i c)
  show ?case
  proof (cases "i < length c")
    case False
    then show ?thesis by (auto simp: check_from_end)
  next
    case True
    show ?thesis
    proof (cases "block_ok c i")
      case False
      then have "check_from i c \<noteq> Valid"
        using True by (auto simp: check_from_step[of i] block_ok_def)
      with False True show ?thesis by auto
    next
      case ok: True
      then have "check_from i c = check_from (i + 1) c"
        using True by (simp add: check_from_step[of i] block_ok_def)
      also have "\<dots> = Valid \<longleftrightarrow> (\<forall>j. i + 1 \<le> j \<and> j < length c \<longrightarrow> block_ok c j)"
        using "1.IH" True ok by (simp add: block_ok_def)
      also have "\<dots> \<longleftrightarrow> (\<forall>j. i \<le> j \<and> j < length c \<longrightarrow> block_ok c j)"
        using ok by (metis Suc_eq_plus1 Suc_leI le_neq_implies_less Suc_leD)
      finally show ?thesis .
    qed
  qed
qed

text \<open>
  Overwriting block \<open>k\<close> of a valid chain: the walk reaches \<open>k\<close>, and when the new
  block keeps the stored hash everything behind \<open>k\<close> still passes.
\<close>

lemma check_from_update:
  assumes valid: "check_from 1 c = Valid" and k: "0 < k" "k < length c"
  shows "check_from 1 (c[k := b']) =
     (if hash b' \<noteq> calculate_hash b' then Hash_mismatch k
      else if hash (c ! (k - 1)) \<noteq> previous_hash b' then Link_mismatch k
      else check_from (k + 1) (c[k := b']))"
proof -
  let ?c = "c[k := b']"
  from valid have ok: "\<forall>j. 1 \<le> j \<and> j < length c \<longrightarrow> block_ok c j"
    by (simp add: check_from_Valid_iff)
  have "\<forall>j. 1 \<le> j \<and> j < k \<longrightarrow> block_ok ?c j"
    using ok k by (auto simp: block_ok_def)
  then have "check_from 1 ?c = check_from k ?c"
    using k by (intro check_from_skip) auto
  also have "\<dots> = (if hash b' \<noteq> calculate_hash b' then Hash_mismatch k
      else if hash (c ! (k - 1)) \<noteq> previous_hash b' then Link_mismatch k
      else check_from (k + 1) ?c)"
    using k by (simp add: check_from_step[of k])
  finally show ?thesis .
qed

lemma check_from_update_rest:
  assumes valid: "check_from 1 c = Valid" and k: "0 < k" "k < length c"
    and h: "hash b' = hash (c ! k)"
  shows "check_from (k + 1) (c[k := b']) = Valid"
proof -
  from valid have ok: "\<forall>j. 1 \<le> j \<and> j < length c \<longrightarrow> block_ok c j"
    by (simp add: check_from_Valid_iff)
  have "\<forall>j. k + 1 \<le> j \<and> j < length (c[k := b']) \<longrightarrow> block_ok (c[k := b']) j"
  proof (intro allI impI)
    fix j assume j: "k + 1 \<le> j \<and> j < length (c[k := b'])"
    then have "block_ok c j" using ok by simp
    then show "block_ok (c[k := b']) j"
      using j h by (cases "j - 1 = k") (auto simp: block_ok_def)
  qed
  then show ?thesis by (simp add: check_from_Valid_iff)
qed

lemma replaced_link_verdict:
  assumes "is_chain_valid bc" and "0 < k" and "k < length (chain bc)"
    and "v \<noteq> hash (chain bc ! (k - 1))"
  shows "chain_verdict (replace_previous_hash k v bc) =
           (if calculate_hash ((chain bc ! k)\<lparr>previous_hash := v\<rparr>) \<noteq> hash (chain bc ! k)
            then Hash_mismatch k else Link_mismatch k)"
proof -
  let ?b = "(chain bc ! k)\<lparr>previous_hash := v\<rparr>"
  from assms(1) have valid: "check_from 1 (chain bc) = Valid"
    by (simp add: is_chain_valid_def chain_verdict_def)
  have "check_from 1 ((chain bc)[k := ?b]) =
     (if hash ?b \<noteq> calculate_hash ?b then Hash_mismatch k
      else if hash (chain bc ! (k - 1)) \<noteq> previous_hash ?b then Link_mismatch k
      else check_from (k + 1) ((chain bc)[k := ?b]))"
    using valid assms(2,3) by (rule check_from_update)
  then show ?thesis
    using assms(4) by (auto simp: chain_verdict_def replace_previous_hash_def)
qed

text \<open>
  The linkage line is the one printed when the relinked block's hash is recomputed
  after the assignment.
\<close>

lemma resealed_link_verdict:
  assumes "is_chain_valid bc" and "0 < k" and "k < length (chain bc)"
    and "v \<noteq> hash (chain bc ! (k - 1))"
  shows "chain_verdict
           (bc\<lparr>chain := (chain bc)
              [k := (chain bc ! k)\<lparr>previous_hash := v,
                     hash := calculate_hash ((chain bc ! k)\<lparr>previous_hash := v\<rparr>)\<rparr>]\<rparr>)
         = Link_mismatch k"
proof -
  let ?b = "(chain bc ! k)\<lparr>previous_hash := v,
              hash := calculate_hash ((chain bc ! k)\<lparr>previous_hash := v\<rparr>)\<rparr>"
  from assms(1) have valid: "check_from 1 (chain bc) = Valid"
    by (simp add: is_chain_valid_def chain_verdict_def)
  have "check_from 1 ((chain bc)[k := ?b]) =
     (if hash ?b \<noteq> calculate_hash ?b then Hash_mismatch k
      else if hash (chain bc ! (k - 1)) \<noteq> previous_hash ?b then Link_mismatch k
      else check_from (k + 1) ((chain bc)[k := ?b]))"
    using valid assms(2,3) by (rule check_from_update)
  moreover have "hash ?b = calculate_hash ?b"
    by (simp add: calculate_hash_def block_data_def)
  ultimately show ?thesis
    using assms(4) by (simp add: chain_verdict_def)
qed

text \<open>
  C1, as the code has it. In a valid chain, replacing the \<open>previous_hash\<close> of block
  \<open>k > 0\<close> by a value other than the hash of block \<open>k - 1\<close> makes \<open>is_chain_valid\<close>
  return false at index \<open>k\<close>. The hash test comes first and \<open>previous_hash\<close> is part
  of the hashed data: the verdict is a hash mismatch whenever the recomputed hash
  differs from the stored one, and a linkage mismatch only when the two coincide.
\<close>

theorem broken_link_verdict:
  assumes "is_chain_valid bc" and "0 < k" and "k < length (chain bc)"
    and "v \<noteq> hash (chain bc ! (k - 1))"
  shows "\<not> is_chain_valid (replace_previous_hash k v bc) \<and>
         chain_verdict (replace_previous_hash k v bc) =
           (if calculate_hash ((chain bc ! k)\<lparr>previous_hash := v\<rparr>) \<noteq> hash (chain bc ! k)
            then Hash_mismatch k else Link_mismatch k)"
  using replaced_link_verdict[OF assms] by (simp add: is_chain_valid_def)

text \<open>
  C10. \<open>is_chain_valid\<close> reads nothing of the first block but its stored hash: two
  chains that differ only in the other fields of block 0 get the same verdict.
\<close>

theorem genesis_contents_ignored:
  assumes "hash g' = hash g"
  shows "chain_verdict (bc\<lparr>chain := g' # rest\<rparr>) = chain_verdict (bc\<lparr>chain := g # rest\<rparr>) \<and>
         is_chain_valid (bc\<lparr>chain := g' # rest\<rparr>) = is_chain_valid (bc\<lparr>chain := g # rest\<rparr>)"
proof -
  have "0 < i \<Longrightarrow> check_from i (g' # rest) = check_from i (g # rest)" for i
  proof (induction "length rest + 1 - i" arbitrary: i)
    case 0
    then show ?case by (simp add: check_from_end)
  next
    case (Suc n)
    then have lt: "i < length (g # rest)" by simp
    have prev: "hash ((g' # rest) ! (i - 1)) = hash ((g # rest) ! (i - 1))"
      using assms by (cases "i - 1") simp_all
    have cur: "(g' # rest) ! i = (g # rest) ! i"
      using Suc.prems by (cases i) simp_all
    have "check_from (i + 1) (g' # rest) = check_from (i + 1) (g # rest)"
      using Suc by (intro Suc.hyps(1)) auto
    then show ?case
      using lt prev cur check_from_step[of i "g' # rest"] check_from_step[of i "g # rest"]
      by simp
  qed
  then show ?thesis
    by (simp add: chain_verdict_def is_chain_valid_def)
qed

section \<open>Mining the pending transactions\<close>

lemma mine_pending_transactions_returns:
  assumes "mine_pending_transactions a now bc = Some (Inr bc')"
  obtains blk where
    "chain bc \<noteq> []"
    "mine_block (difficulty bc) (Block (hash (last (chain bc))) (pending_transactions bc) now 0)
       = Some blk"
    "bc' = bc\<lparr>chain := chain bc @ [blk],
              pending_transactions := [\<lparr>sender = None, receiver = a, amount = 1\<rparr>]\<rparr>"
  using assms
  by (auto simp: mine_pending_transactions_def get_last_block_def add_block_def
           split: if_splits option.splits)

text \<open>
  C5. When \<open>mine_pending_transactions\<close> returns, the chain has grown by one block whose
  \<open>previous_hash\<close> is the hash of the block that was last before the call and whose
  transactions are the pending pool as it was at the start of the call; the pool is
  afterwards the single reward transaction from \<open>None\<close> to the miner, of amount 1.
\<close>

theorem mine_pending_transactions_effect:
  assumes "mine_pending_transactions miner_address now bc = Some (Inr bc')"
  shows "chain bc \<noteq> [] \<and>
         chain bc' = chain bc @ [last (chain bc')] \<and>
         previous_hash (last (chain bc')) = hash (last (chain bc)) \<and>
         transactions (last (chain bc')) = pending_transactions bc \<and>
         pending_transactions bc' = [\<lparr>sender = None, receiver = miner_address, amount = 1\<rparr>]"
proof -
  from assms obtain blk where
    ne: "chain bc \<noteq> []" and
    m: "mine_block (difficulty bc) (Block (hash (last (chain bc))) (pending_transactions bc) now 0)
       = Some blk" and
    eq: "bc' = bc\<lparr>chain := chain bc @ [blk],
              pending_transactions := [\<lparr>sender = None, receiver = miner_address, amount = 1\<rparr>]\<rparr>"
    by (rule mine_pending_transactions_returns)
  from mine_block_keeps[OF m] have
    "previous_hash blk = hash (last (chain bc))" "transactions blk = pending_transactions bc"
    by simp_all
  with ne eq show ?thesis by simp
qed

lemma check_from_snoc:
  assumes "c \<noteq> []"
  shows "check_from 1 (c @ [b]) = Valid \<longleftrightarrow>
         check_from 1 c = Valid \<and> hash b = calculate_hash b \<and> hash (last c) = previous_hash b"
proof -
  have old: "block_ok (c @ [b]) j = block_ok c j" if "1 \<le> j" "j < length c" for j
    using that by (auto simp: block_ok_def nth_append)
  have new: "block_ok (c @ [b]) (length c) \<longleftrightarrow>
               hash b = calculate_hash b \<and> hash (last c) = previous_hash b"
    using assms by (simp add: block_ok_def nth_append last_conv_nth)
  have "(\<forall>j. 1 \<le> j \<and> j < length (c @ [b]) \<longrightarrow> block_ok (c @ [b]) j) \<longleftrightarrow>
        (\<forall>j. 1 \<le> j \<and> j < length c \<longrightarrow> block_ok c j) \<and> block_ok (c @ [b]) (length c)"
  proof -
    have "1 \<le> length c" using assms by (cases c) simp_all
    then show ?thesis
      using old by (auto simp: less_Suc_eq)
  qed
  then show ?thesis
    by (simp only: check_from_Valid_iff new)
qed

lemma mine_pending_transactions_valid:
  assumes "mine_pending_transactions a now bc = Some (Inr bc')" and "is_chain_valid bc"
  shows "is_chain_valid bc' \<and> length (chain bc') = length (chain bc) + 1"
proof -
  from assms(1) obtain blk where
    ne: "chain bc \<noteq> []" and
    m: "mine_block (difficulty bc) (Block (hash (last (chain bc))) (pending_transactions bc) now 0)
       = Some blk" and
    eq: "bc' = bc\<lparr>chain := chain bc @ [blk],
              pending_transactions := [\<lparr>sender = None, receiver = a, amount = 1\<rparr>]\<rparr>"
    by (rule mine_pending_transactions_returns)
  have "hash blk = calculate_hash blk"
    using mine_block_invariant[OF m] hash_Block by simp
  moreover have "previous_hash blk = hash (last (chain bc))"
    using mine_block_keeps[OF m] by simp
  ultimately show ?thesis
    using assms(2) ne eq check_from_snoc[OF ne, of blk]
    by (simp add: is_chain_valid_def chain_verdict_def)
qed

lemma run_mining_valid:
  assumes "run xs bc = Some (Inr bc')" and "\<forall>x \<in> set xs. \<not> is_add_block x"
    and "is_chain_valid bc"
  shows "is_chain_valid bc' \<and> length (chain bc') = length (chain bc) + length (filter is_mine xs)"
  using assms
proof (induction xs arbitrary: bc)
  case Nil
  then show ?case by simp
next
  case (Cons x xs)
  show ?case
  proof (cases x)
    case (AddTransaction t)
    with Cons.prems have r: "run xs (add_transaction t bc) = Some (Inr bc')" by simp
    have "is_chain_valid (add_transaction t bc)"
      using Cons.prems(3) by (simp add: is_chain_valid_def chain_verdict_def add_transaction_def)
    from Cons.IH[OF r _ this] Cons.prems(2) AddTransaction show ?thesis
      by (simp add: add_transaction_def)
  next
    case (AddBlock b)
    with Cons.prems(2) show ?thesis by simp
  next
    case (MinePending a now)
    with Cons.prems(1) obtain bc1 where
      m: "mine_pending_transactions a now bc = Some (Inr bc1)" and r: "run xs bc1 = Some (Inr bc')"
      by (auto split: option.splits sum.splits)
    from mine_pending_transactions_valid[OF m Cons.prems(3)] have
      v: "is_chain_valid bc1" and l: "length (chain bc1) = length (chain bc) + 1" by simp_all
    from Cons.IH[OF r _ v] Cons.prems(2) l MinePending show ?thesis by simp
  qed
qed

lemma fresh_valid: "is_chain_valid (Blockchain d)"
  by (simp add: is_chain_valid_def chain_verdict_def Blockchain_def check_from_end)

text \<open>
  C4. Start from a freshly constructed ledger and make any calls of \<open>add_transaction\<close>
  and \<open>mine_pending_transactions\<close>. If all of them return, and \<open>N\<close> of them are
  \<open>mine_pending_transactions\<close>, the chain has \<open>N + 1\<close> blocks and \<open>is_chain_valid\<close> is
  true.
\<close>

theorem mined_chain_valid:
  assumes "run xs (Blockchain d) = Some (Inr bc)" and "\<forall>x \<in> set xs. \<not> is_add_block x"
  shows "length (chain bc) = length (filter is_mine xs) + 1 \<and> is_chain_valid bc"
  using run_mining_valid[OF assms fresh_valid] by (simp add: Blockchain_def)

lemma apply_call_chain:
  assumes "apply_call x bc = Some (Inr bc')"
  shows "\<exists>ys. chain bc' = chain bc @ ys"
proof (cases x)
  case (AddTransaction t)
  with assms show ?thesis by (auto simp: add_transaction_def)
next
  case (AddBlock b)
  with assms show ?thesis by (auto simp: add_block_def)
next
  case (MinePending a now)
  with assms have "mine_pending_transactions a now bc = Some (Inr bc')" by simp
  then show ?thesis by (rule mine_pending_transactions_returns) simp
qed

lemma run_chain:
  assumes "run xs bc = Some (Inr bc')"
  shows "\<exists>ys. chain bc' = chain bc @ ys"
  using assms
proof (induction xs arbitrary: bc)
  case Nil
  then show ?case by simp
next
  case (Cons x xs)
  then obtain bc1 where a: "apply_call x bc = Some (Inr bc1)" and r: "run xs bc1 = Some (Inr bc')"
    by (auto split: option.splits sum.splits)
  from apply_call_chain[OF a] Cons.IH[OF r] show ?case by auto
qed

text \<open>
  C8. A freshly constructed ledger has a chain of exactly one block, the genesis block
  (\<open>previous_hash\<close> \<open>''0''\<close>, no transactions, timestamp 0, nonce 0), and an empty pending
  pool; after every sequence of \<open>add_transaction\<close>, \<open>add_block\<close> and
  \<open>mine_pending_transactions\<close> calls that returns, block 0 of the chain is still that
  genesis block.
\<close>

theorem genesis_stays:
  "chain (Blockchain d) = [create_genesis_block] \<and>
   previous_hash create_genesis_block = ''0'' \<and>
   transactions create_genesis_block = [] \<and>
   timestamp create_genesis_block = 0 \<and>
   nonce create_genesis_block = 0 \<and>
   pending_transactions (Blockchain d) = [] \<and>
   (run xs (Blockchain d) = Some (Inr bc) \<longrightarrow>
      chain bc \<noteq> [] \<and> chain bc ! 0 = create_genesis_block)"
proof -
  have "chain bc \<noteq> [] \<and> chain bc ! 0 = create_genesis_block"
    if "run xs (Blockchain d) = Some (Inr bc)"
    using run_chain[OF that] by (auto simp: Blockchain_def)
  then show ?thesis
    by (simp add: Blockchain_def create_genesis_block_def)
qed

section \<open>Balances\<close>

lemma fold_balance_step:
  "fold (balance_step a) ts bal = bal + sum_list (map (signed_amount a) ts)"
  by (induction ts arbitrary: bal) (simp_all add: balance_step_def signed_amount_def Let_def)

lemma fold_blocks:
  "fold (\<lambda>blk bal. fold (balance_step a) (transactions blk) bal) bs bal =
     bal + sum_list (map (signed_amount a) (concat (map transactions bs)))"
  by (induction bs arbitrary: bal) (simp_all add: fold_balance_step)

lemma get_balance_sum:
  "get_balance a bc = sum_list (map (signed_amount a) (all_transactions bc))"
  by (simp add: get_balance_def all_transactions_def fold_blocks)

text \<open>
  C6. \<open>get_balance a\<close> is the sum, over all transactions of all blocks of the chain in
  order, of \<open>+ amount\<close> when the receiver is \<open>a\<close> minus \<open>amount\<close> when the sender is \<open>a\<close>.
  So a transaction whose sender equals its receiver contributes zero, and an address
  that is sender or receiver of no transaction has balance 0.
\<close>

theorem get_balance_spec:
  "get_balance a bc = sum_list (map (signed_amount a) (all_transactions bc)) \<and>
   (sender t = receiver t \<longrightarrow> signed_amount a t = 0) \<and>
   ((\<forall>t \<in> set (all_transactions bc). sender t \<noteq> a \<and> receiver t \<noteq> a) \<longrightarrow>
      get_balance a bc = 0)"
proof (intro conjI impI)
  show "get_balance a bc = sum_list (map (signed_amount a) (all_transactions bc))"
    by (rule get_balance_sum)
next
  assume "sender t = receiver t"
  then show "signed_amount a t = 0" by (simp add: signed_amount_def)
next
  assume "\<forall>t \<in> set (all_transactions bc). sender t \<noteq> a \<and> receiver t \<noteq> a"
  then have "\<forall>t \<in> set (all_transactions bc). signed_amount a t = 0"
    by (simp add: signed_amount_def)
  moreover have "sum_list (map (signed_amount a) ts) = 0"
    if "\<forall>t \<in> set ts. signed_amount a t = 0" for ts
    using that by (induction ts) simp_all
  ultimately have "sum_list (map (signed_amount a) (all_transactions bc)) = 0"
    by blast
  then show "get_balance a bc = 0" by (simp add: get_balance_sum)
qed

text \<open>
  C9. The sender comparison of \<open>get_balance\<close> has no guard for \<open>None\<close>: asked for the
  address \<open>None\<close>, the loop body subtracts the amount of a reward transaction (sender
  \<open>None\<close>), and the result is what \<open>None\<close> received minus the amounts of all transactions
  of the chain whose sender is \<open>None\<close>. With no \<open>None\<close> receiver in the chain the balance
  of \<open>None\<close> is minus the sum of the reward amounts.
\<close>

theorem get_balance_null:
  "(sender t = None \<and> receiver t \<noteq> None \<longrightarrow> balance_step None t bal = bal - amount t) \<and>
   get_balance None bc =
     sum_list (map amount (filter (\<lambda>t. receiver t = None) (all_transactions bc))) -
     sum_list (map amount (filter (\<lambda>t. sender t = None) (all_transactions bc))) \<and>
   ((\<forall>t \<in> set (all_transactions bc). receiver t \<noteq> None) \<longrightarrow>
      get_balance None bc =
        - sum_list (map amount (filter (\<lambda>t. sender t = None) (all_transactions bc))))"
proof -
  have gen: "sum_list (map (signed_amount None) ts) =
          sum_list (map amount (filter (\<lambda>t. receiver t = None) ts)) -
          sum_list (map amount (filter (\<lambda>t. sender t = None) ts))" for ts
    by (induction ts) (auto simp: signed_amount_def)
  have "sum_list (map amount (filter (\<lambda>t. receiver t = None) ts)) = 0"
    if "\<forall>t \<in> set ts. receiver t \<noteq> None" for ts
    using that by (induction ts) auto
  with gen show ?thesis
    by (simp add: get_balance_sum balance_step_def Let_def)
qed

section \<open>Tampering with an amount\<close>

text \<open>The digest is 64 characters out of 16: it takes finitely many values.\<close>

lemma hex_digit_range:
  assumes "0 \<le> n" and "n < 16"
  shows "hex_digit n \<in> set ''0123456789abcdef''"
proof -
  have "nat n < length ''0123456789abcdef''"
    using assms by simp
  then show ?thesis
    unfolding hex_digit_def by (rule nth_mem)
qed

lemma hex32_range:
  "length (hex32 w) = 8 \<and> set (hex32 w) \<subseteq> set ''0123456789abcdef''"
proof -
  have mem: "hex_digit ((w div 16 ^ i) mod 16) \<in> set ''0123456789abcdef''" for i :: nat
    by (rule hex_digit_range) simp_all
  have "set (hex32 w) \<subseteq> set ''0123456789abcdef''"
    unfolding hex32_def set_map using mem by blast
  moreover have "length (hex32 w) = 8"
    by (simp add: hex32_def)
  ultimately show ?thesis by simp
qed

lemma hex_state_range:
  "length (hex_state s) = 64 \<and> set (hex_state s) \<subseteq> set ''0123456789abcdef''"
proof -
  define H where "H = set ''0123456789abcdef''"
  have l: "length (hex32 w) = 8" and m: "set (hex32 w) \<subseteq> H" for w
    using hex32_range[of w] by (simp_all only: H_def)
  obtain a b c d e f g h where s: "s = (a, b, c, d, e, f, g, h)"
    by (metis surj_pair)
  have "length (hex_state s) = 64 \<and> set (hex_state s) \<subseteq> H"
    unfolding s by (simp add: l m)
  then show ?thesis by (simp only: H_def)
qed

lemma digests_card:
  "finite {xs. set xs \<subseteq> set ''0123456789abcdef'' \<and> length xs = 64} \<and>
   card {xs. set xs \<subseteq> set ''0123456789abcdef'' \<and> length xs = 64} = 16 ^ 64 \<and>
   sha256_hexdigest m \<in> {xs. set xs \<subseteq> set ''0123456789abcdef'' \<and> length xs = 64}"
proof -
  define H where "H = set ''0123456789abcdef''"
  have "distinct ''0123456789abcdef''" by simp
  then have "card H = length ''0123456789abcdef''"
    unfolding H_def by (rule distinct_card)
  then have c: "card H = 16" by simp
  have f: "finite H" by (simp add: H_def)
  have "card {xs. set xs \<subseteq> H \<and> length xs = 64} = card H ^ 64"
    using f by (rule card_lists_length_eq)
  moreover have "finite {xs. set xs \<subseteq> H \<and> length xs = 64}"
    using f by (rule finite_lists_length_eq)
  moreover have "sha256_hexdigest m \<in> {xs. set xs \<subseteq> H \<and> length xs = 64}"
    unfolding sha256_hexdigest_def H_def using hex_state_range by blast
  ultimately have
    "finite {xs. set xs \<subseteq> H \<and> length xs = 64} \<and>
     card {xs. set xs \<subseteq> H \<and> length xs = 64} = 16 ^ 64 \<and>
     sha256_hexdigest m \<in> {xs. set xs \<subseteq> H \<and> length xs = 64}"
    by (simp only: c simp_thms)
  then show ?thesis
    unfolding H_def .
qed

lemma calculate_hash_length: "length (calculate_hash b) = 64"
  using hex_state_range by (simp add: calculate_hash_def sha256_hexdigest_def)

text \<open>
  A difficulty above the length of the digest is never met: on a constructed block the
  search does not return.
\<close>

lemma mine_block_beyond_digest:
  assumes "64 < d"
  shows "mine_block d (Block p ts t n) = None"
proof (cases "mine_block d (Block p ts t n)")
  case None
  then show ?thesis .
next
  case (Some b')
  have "hash b' = calculate_hash b'"
    using mine_block_invariant[OF Some] hash_Block by simp
  then have len: "length (hash b') = 64"
    by (simp add: calculate_hash_length)
  have "take (nat d) (hash b') = replicate (nat d) CHR ''0''"
    using mine_block_sealed[OF Some] by (rule target_prefix)
  then have "length (take (nat d) (hash b')) = nat d"
    by simp
  with len assms show ?thesis by simp
qed

text \<open>
  There are more amounts of at most 78 digits than digests, so for every block two such
  amounts give the same digest. This is why the statement about an assigned amount
  below has to compare digests.
\<close>

lemma amount_collision:
  "\<exists>a a'. 0 \<le> a \<and> a < a' \<and> a' \<le> 16 ^ 64 \<and>
     calculate_hash (Block p [\<lparr>sender = s, receiver = r, amount = a\<rparr>] t n) =
     calculate_hash (Block p [\<lparr>sender = s, receiver = r, amount = a'\<rparr>] t n)"
proof -
  let ?f = "\<lambda>a :: int. calculate_hash (Block p [\<lparr>sender = s, receiver = r, amount = a\<rparr>] t n)"
  let ?D = "{xs. set xs \<subseteq> set ''0123456789abcdef'' \<and> length xs = 64}"
  let ?A = "{0 .. 16 ^ 64 :: int}"
  have sub: "?f ` ?A \<subseteq> ?D"
    using digests_card by (auto simp only: calculate_hash_def)
  have "\<not> inj_on ?f ?A"
  proof
    assume "inj_on ?f ?A"
    then have "card (?f ` ?A) = card ?A"
      by (rule card_image)
    moreover have "card (?f ` ?A) \<le> card ?D"
      using digests_card sub by (intro card_mono) simp_all
    moreover have "card ?D = 16 ^ 64"
      using digests_card by blast
    moreover have "card ?A = 16 ^ 64 + 1"
      by simp
    ultimately show False by simp
  qed
  then obtain x y where xy: "x \<in> ?A" "y \<in> ?A" "x \<noteq> y" "?f x = ?f y"
    unfolding inj_on_def by blast
  show ?thesis
  proof (cases "x < y")
    case True
    with xy show ?thesis
      by (intro exI[of _ x] exI[of _ y]) simp
  next
    case False
    with xy have "y < x" by simp
    with xy show ?thesis
      by (intro exI[of _ y] exI[of _ x]) simp
  qed
qed


















lemma read_block_fields [simp]:
  "hash (read_block s bo) = its_hash bo"
  "previous_hash (read_block s bo) = its_previous_hash bo"
  by (simp_all add: read_block_def)



text \<open>
  Read through the references, the calls with references are the calls on values, as
  long as every reference held is one the store has.
\<close>

lemma read_add_transaction_ref:
  "read_ledger (add_transaction_ref r st) = add_transaction (store st ! r) (read_ledger st)"
  by (simp add: read_ledger_def add_transaction_ref_def add_transaction_def)

lemma read_block_append:
  assumes "\<forall>r \<in> set (its_transactions bo). r < length s"
  shows "read_block (s @ [t]) bo = read_block s bo"
proof -
  have "map ((!) (s @ [t])) (its_transactions bo) = map ((!) s) (its_transactions bo)"
    using assms by (intro map_cong refl) (simp add: nth_append)
  then show ?thesis by (simp add: read_block_def)
qed

lemma read_mine_pending_refs:
  assumes pend: "\<forall>r \<in> set (pending_refs st). r < length (store st)"
    and held: "\<forall>bo \<in> set (block_objects st). \<forall>r \<in> set (its_transactions bo). r < length (store st)"
  shows "map_option (map_sum id read_ledger) (mine_pending_refs a now st) =
         mine_pending_transactions a now (read_ledger st)"
proof (cases "block_objects st = []")
  case True
  then show ?thesis
    by (simp add: mine_pending_refs_def mine_pending_transactions_def get_last_block_def
          read_ledger_def)
next
  case False
  let ?s = "store st" and ?bos = "block_objects st" and ?p = "pending_refs st"
  let ?cand = "Block (its_hash (last ?bos)) (map ((!) ?s) ?p) now 0"
  let ?rw = "\<lparr>sender = None, receiver = a, amount = 1\<rparr>"
  have last: "hash (last (chain (read_ledger st))) = its_hash (last ?bos)"
    using False by (simp add: read_ledger_def last_map read_block_def)
  have val: "mine_pending_transactions a now (read_ledger st) =
      (case mine_block (its_difficulty st) ?cand of
         None \<Rightarrow> None
       | Some blk \<Rightarrow> Some (Inr ((add_block blk (read_ledger st))\<lparr>pending_transactions := [?rw]\<rparr>)))"
    using False last
    by (simp add: mine_pending_transactions_def get_last_block_def)
       (simp add: read_ledger_def)
  show ?thesis
  proof (cases "mine_block (its_difficulty st) ?cand")
    case None
    with False val show ?thesis
      by (simp add: mine_pending_refs_def)
  next
    case (Some blk)
    have txs: "transactions blk = map ((!) ?s) ?p"
      using mine_block_keeps[OF Some] by simp
    have new: "read_block (?s @ [?rw]) (object_of blk ?p) = blk"
    proof -
      have "map ((!) (?s @ [?rw])) ?p = map ((!) ?s) ?p"
        using pend by (intro map_cong refl) (simp add: nth_append)
      then show ?thesis
        by (simp add: read_block_def object_of_def txs)
    qed
    have old: "map (read_block (?s @ [?rw])) ?bos = map (read_block ?s) ?bos"
      using held by (intro map_cong refl read_block_append) simp
    have "map_option (map_sum id read_ledger) (mine_pending_refs a now st) =
          Some (Inr ((add_block blk (read_ledger st))\<lparr>pending_transactions := [?rw]\<rparr>))"
      using False Some
      by (simp add: mine_pending_refs_def Transaction_def read_ledger_def add_block_def new old)
    with val Some show ?thesis by simp
  qed
qed


section \<open>The demonstration run, evaluated\<close>

lemma genesis_value: "create_genesis_block = demo_genesis"
  by code_simp

lemma demo_step1:
  "mine_pending_transactions (Some ''miner1'') 1700000098
     (add_transaction \<lparr>sender = Some ''A'', receiver = Some ''B'', amount = 100\<rparr> (Blockchain 2))
   = Some (Inr demo_mined1)"
  by code_simp

lemma demo_step2:
  "mine_pending_transactions (Some ''miner2'') 1700000141
     (add_transaction \<lparr>sender = Some ''C'', receiver = Some ''D'', amount = 10\<rparr> demo_mined1)
   = Some (Inr demo_ledger)"
  by code_simp

lemma small_seal: "mine_block 1 (Block ''0'' [] 2 0) = Some small_sealed"
  by code_simp

lemma relinked1_digest:
  "calculate_hash ((chain demo_ledger ! 1)\<lparr>previous_hash := zero_digest\<rparr>)
     \<noteq> hash (chain demo_ledger ! 1)"
  by code_simp

lemma relinked2_digest:
  "calculate_hash ((chain demo_ledger ! 2)\<lparr>previous_hash := ''deadbeef''\<rparr>)
     \<noteq> hash (chain demo_ledger ! 2)"
  by code_simp








lemma demo_run: "run demo_calls (Blockchain 2) = Some (Inr demo_ledger)"
  by (simp add: demo_calls_def demo_step1 demo_step2)

lemma demo_valid: "is_chain_valid demo_ledger"
  using run_mining_valid[OF demo_run _ fresh_valid] by (simp add: demo_calls_def)

text \<open>Witness of C3: a search at difficulty 1 that leaves the loop at nonce 2.\<close>

theorem seal_hash_consistent_witness:
  "mine_block 1 (Block ''0'' [] 2 0) = Some small_sealed \<and>
   nonce small_sealed \<noteq> nonce (Block ''0'' [] 2 0) \<and>
   take 1 (hash small_sealed) = ''0'' \<and>
   hash small_sealed = calculate_hash small_sealed"
  using seal_hash_consistent[of "''0''" "[]" 2 0 1 small_sealed "Block ''0'' [] 2 0" small_sealed]
    small_seal
  by (simp add: small_sealed_def)

text \<open>Witness of C4: the demonstration run, two blocks mined at difficulty 2.\<close>

theorem mined_chain_valid_witness:
  "run demo_calls (Blockchain 2) = Some (Inr demo_ledger) \<and>
   length (filter is_mine demo_calls) = 2 \<and>
   length (chain demo_ledger) = 3 \<and>
   is_chain_valid demo_ledger"
proof -
  have n: "length (filter is_mine demo_calls) = 2"
    by (simp add: demo_calls_def)
  have "\<forall>x \<in> set demo_calls. \<not> is_add_block x"
    by (simp add: demo_calls_def)
  from mined_chain_valid[OF demo_run this] demo_run n show ?thesis
    by simp
qed

text \<open>Witness of C5: the second mining call of the demonstration run.\<close>

theorem mine_pending_transactions_effect_witness:
  "mine_pending_transactions (Some ''miner2'') 1700000141
     (add_transaction \<lparr>sender = Some ''C'', receiver = Some ''D'', amount = 10\<rparr> demo_mined1)
     = Some (Inr demo_ledger) \<and>
   last (chain demo_ledger) = demo_block2 \<and>
   chain demo_ledger = chain demo_mined1 @ [demo_block2] \<and>
   previous_hash demo_block2 = hash demo_block1 \<and>
   transactions demo_block2 =
     [\<lparr>sender = None, receiver = Some ''miner1'', amount = 1\<rparr>,
      \<lparr>sender = Some ''C'', receiver = Some ''D'', amount = 10\<rparr>] \<and>
   pending_transactions demo_ledger = [\<lparr>sender = None, receiver = Some ''miner2'', amount = 1\<rparr>]"
proof -
  have l: "last (chain demo_ledger) = demo_block2"
    by (simp add: demo_ledger_def)
  have c: "chain (add_transaction \<lparr>sender = Some ''C'', receiver = Some ''D'', amount = 10\<rparr>
             demo_mined1) = chain demo_mined1"
    and l1: "last (chain demo_mined1) = demo_block1"
    and p: "pending_transactions
              (add_transaction \<lparr>sender = Some ''C'', receiver = Some ''D'', amount = 10\<rparr>
                 demo_mined1) =
            [\<lparr>sender = None, receiver = Some ''miner1'', amount = 1\<rparr>,
             \<lparr>sender = Some ''C'', receiver = Some ''D'', amount = 10\<rparr>]"
    by (simp_all add: add_transaction_def demo_mined1_def)
  from mine_pending_transactions_effect[OF demo_step2] demo_step2 show ?thesis
    by (simp only: l c l1 p simp_thms last_snoc)
qed

text \<open>
  Witness of C6, on the ledger of the demonstration run: \<open>miner2\<close> is in no transaction
  of the chain (its reward is still pending), and a transfer from \<open>A\<close> to \<open>A\<close> counts zero.
\<close>

theorem get_balance_spec_witness:
  "Some ''miner2'' \<notin> set (map sender (all_transactions demo_ledger)) \<and>
   Some ''miner2'' \<notin> set (map receiver (all_transactions demo_ledger)) \<and>
   get_balance (Some ''miner2'') demo_ledger = 0 \<and>
   get_balance (Some ''A'') demo_ledger = - 100 \<and>
   get_balance (Some ''B'') demo_ledger = 100 \<and>
   get_balance (Some ''miner1'') demo_ledger = 1 \<and>
   signed_amount (Some ''A'') \<lparr>sender = Some ''A'', receiver = Some ''A'', amount = 5\<rparr> = 0"
  using get_balance_spec[of "Some ''miner2''" demo_ledger
          "\<lparr>sender = Some ''A'', receiver = Some ''A'', amount = 5\<rparr>"]
        get_balance_spec[of "Some ''A''" demo_ledger
          "\<lparr>sender = Some ''A'', receiver = Some ''A'', amount = 5\<rparr>"]
        get_balance_spec[of "Some ''B''" demo_ledger]
        get_balance_spec[of "Some ''miner1''" demo_ledger]
  by (simp add: all_transactions_def signed_amount_def demo_ledger_def demo_genesis_def
        demo_block1_def demo_block2_def)

text \<open>
  Witness of C8: the demonstration run followed by \<open>add_block\<close> of an unrelated block.
\<close>

theorem genesis_stays_witness:
  "run (demo_calls @ [AddBlock overwritten_genesis]) (Blockchain 2)
     = Some (Inr (add_block overwritten_genesis demo_ledger)) \<and>
   chain (add_block overwritten_genesis demo_ledger) ! 0 = create_genesis_block"
  using genesis_stays[of 2 "demo_calls @ [AddBlock overwritten_genesis]"
          "add_block overwritten_genesis demo_ledger"]
  by (simp add: demo_calls_def demo_step1 demo_step2)

text \<open>Witness of C9: the chain of the demonstration run holds one reward, of amount 1.\<close>

theorem get_balance_null_witness:
  "None \<notin> set (map receiver (all_transactions demo_ledger)) \<and>
   balance_step None \<lparr>sender = None, receiver = Some ''miner1'', amount = 1\<rparr> 0 = - 1 \<and>
   get_balance None demo_ledger = - 1"
  using get_balance_null[of "\<lparr>sender = None, receiver = Some ''miner1'', amount = 1\<rparr>" 0
          demo_ledger]
  by (simp add: all_transactions_def demo_ledger_def demo_genesis_def
        demo_block1_def demo_block2_def)

text \<open>
  Witness of C10: the demonstration chain with every field of block 0 but the stored hash
  overwritten is still valid.
\<close>

theorem genesis_contents_ignored_witness:
  "hash overwritten_genesis = hash demo_genesis \<and>
   overwritten_genesis \<noteq> demo_genesis \<and>
   is_chain_valid (demo_ledger\<lparr>chain := overwritten_genesis # [demo_block1, demo_block2]\<rparr>)"
proof -
  have same: "hash overwritten_genesis = hash demo_genesis"
    by (simp add: overwritten_genesis_def demo_genesis_def)
  have "demo_ledger\<lparr>chain := demo_genesis # [demo_block1, demo_block2]\<rparr> = demo_ledger"
    by (simp add: demo_ledger_def)
  with genesis_contents_ignored[OF same, where bc = demo_ledger and rest = "[demo_block1, demo_block2]"] demo_valid
  have "is_chain_valid (demo_ledger\<lparr>chain := overwritten_genesis # [demo_block1, demo_block2]\<rparr>)"
    by simp
  moreover have "overwritten_genesis \<noteq> demo_genesis"
    by (simp add: overwritten_genesis_def demo_genesis_def)
  ultimately show ?thesis using same by simp
qed

text \<open>
  Witness of C1: block 2 of the demonstration chain relinked to \<open>''deadbeef''\<close>.
\<close>

theorem broken_link_verdict_witness:
  "is_chain_valid demo_ledger \<and>
   ''deadbeef'' \<noteq> hash (chain demo_ledger ! 1) \<and>
   \<not> is_chain_valid (replace_previous_hash 2 ''deadbeef'' demo_ledger) \<and>
   chain_verdict (replace_previous_hash 2 ''deadbeef'' demo_ledger) = Hash_mismatch 2"
proof -
  have k: "(0::nat) < 2" "2 < length (chain demo_ledger)"
    by (simp_all add: demo_ledger_def)
  have v: "''deadbeef'' \<noteq> hash (chain demo_ledger ! (2 - 1))"
    by (simp add: demo_ledger_def demo_block1_def)
  from broken_link_verdict[OF demo_valid k v] relinked2_digest demo_valid v
  show ?thesis by simp
qed

text \<open>
  Counterexample to C1 as stated: block 1 of the valid demonstration chain gets the
  \<open>previous_hash\<close> of 64 zeros, which is not the hash of block 0. The verdict cites a
  hash mismatch at index 1, not a linkage mismatch.
\<close>

theorem broken_link_cites_hash_mismatch:
  "is_chain_valid demo_ledger \<and>
   1 < length (chain demo_ledger) \<and>
   zero_digest \<noteq> hash (chain demo_ledger ! 0) \<and>
   chain_verdict (replace_previous_hash 1 (zero_digest) demo_ledger) = Hash_mismatch 1 \<and>
   chain_verdict (replace_previous_hash 1 (zero_digest) demo_ledger) \<noteq> Link_mismatch 1"
proof -
  have k: "(0::nat) < 1" "1 < length (chain demo_ledger)"
    by (simp_all add: demo_ledger_def)
  have v: "zero_digest \<noteq> hash (chain demo_ledger ! (1 - 1))"
    by (simp add: demo_ledger_def demo_genesis_def genesis_digest_def zero_digest_def)
  from replaced_link_verdict[OF demo_valid k v] relinked1_digest
  have "chain_verdict (replace_previous_hash 1 (zero_digest) demo_ledger)
          = Hash_mismatch 1"
    by simp
  with demo_valid k v show ?thesis by simp
qed



end
